theory Spec2Isabelle
  imports Complex_Main "HOL-Library.Sublist"
begin

section \<open>The Spider conformance harness (scripts/test-spider.py)\<close>

text \<open>
  The script drives a corpus of SQL queries through an external parser, counts passes and
  failures, and classifies each failing query text by a chain of substring tests.

  Query texts are Python \<open>str\<close> values. They are modelled as \<open>string\<close>, one \<open>char\<close> per
  character. \<open>str.upper\<close> follows the Unicode case tables and may change the length of a
  text (it turns the sharp s into \<open>SS\<close>), so the model does not fix it: every function that
  uppercases takes the uppercasing as its parameter \<open>upper\<close>, and nothing is assumed about
  it. Every exception the script can raise is a value of \<open>error\<close>, and a function that can
  raise returns \<open>error + 'a\<close>.
\<close>

datatype error = ValueError | ZeroDivisionError

subsection \<open>The string operations the script uses\<close>

text \<open>
  What \<open>s.upper()\<close> does to a text of ASCII characters: \<open>a..z\<close> go to \<open>A..Z\<close> and the
  other characters stay. It stands for \<open>str.upper\<close> only in the example runs below, whose
  texts are all ASCII.
\<close>

definition ascii_upper_char :: "char \<Rightarrow> char" where
  "ascii_upper_char c =
     (let n = (of_char c :: nat) in if 97 \<le> n \<and> n \<le> 122 then char_of (n - 32) else c)"

definition ascii_upper :: "string \<Rightarrow> string" where
  "ascii_upper s = map ascii_upper_char s"

text \<open>
  An uppercasing that changes the length of a text, as \<open>str.upper\<close> does: the sharp s
  (U+00DF) becomes \<open>SS\<close>, and the ASCII letters are uppercased.
\<close>

definition sharp_s_upper :: "string \<Rightarrow> string" where
  "sharp_s_upper s =
     concat (map (\<lambda>c. if c = CHR 0xDF then ''SS'' else [ascii_upper_char c]) s)"

text \<open>The text made of an opening parenthesis, a sharp s and \<open>elect\<close>.\<close>

definition sharp_s_example :: string where
  "sharp_s_example = CHR ''('' # CHR 0xDF # ''elect''"

text \<open>\<open>sub in s\<close>: \<open>sub\<close> occurs in \<open>s\<close> as a contiguous substring.\<close>

fun contains :: "string \<Rightarrow> string \<Rightarrow> bool" where
  "contains sub [] = (sub = [])"
| "contains sub (c # cs) = (prefix sub (c # cs) \<or> contains sub cs)"

text \<open>\<open>s.index(sub)\<close>: the position of the first occurrence; \<open>None\<close> is Python's ValueError.\<close>

fun index_str :: "string \<Rightarrow> string \<Rightarrow> nat option" where
  "index_str [] sub = (if sub = [] then Some 0 else None)"
| "index_str (c # cs) sub =
     (if prefix sub (c # cs) then Some 0 else map_option Suc (index_str cs sub))"

text \<open>\<open>s.count(c)\<close> for a one-character argument, the only way the script calls it.\<close>

definition count_char :: "string \<Rightarrow> char \<Rightarrow> nat" where
  "count_char s c = length (filter (\<lambda>x. x = c) s)"

text \<open>The double-quote character.\<close>

definition dquote :: char where
  "dquote = CHR 0x22"

subsection \<open>categorize_failure\<close>

text \<open>
  Lines 43 to 57 of the script: the chain of tests that follows the subquery test. The
  first six read the uppercased text \<open>q\<close>, the quote test reads the original \<open>query\<close>.
\<close>

definition categorize_tail :: "string \<Rightarrow> string \<Rightarrow> string" where
  "categorize_tail q query =
     (if contains '' EXCEPT '' q then ''EXCEPT''
      else if contains '' UNION '' q then ''UNION''
      else if contains '' INTERSECT '' q then ''INTERSECT''
      else if contains ''CASE '' q \<or> contains '' WHEN '' q then ''CASE/WHEN''
      else if contains '' || '' q then ''String concat (||)''
      else if contains [dquote, dquote] query \<or> count_char query dquote mod 2 \<noteq> 0
        then ''Double-quoted strings''
      else ''Other'')"

text \<open>
  Lines 31 to 57. \<open>q.index('(')\<close> raises ValueError when there is no parenthesis, so the
  model has that branch; the slice \<open>q[paren_idx + 1:]\<close> is \<open>drop\<close>.
\<close>

definition categorize_failure :: "(string \<Rightarrow> string) \<Rightarrow> string \<Rightarrow> error + string" where
  "categorize_failure upper query =
     (let q = upper query in
      if contains ''SELECT'' q \<and> contains ''('' q then
        (case index_str q ''('' of
           None \<Rightarrow> Inl ValueError
         | Some paren_idx \<Rightarrow>
             if paren_idx + 1 < length q then
               (let after_paren = drop (paren_idx + 1) q in
                if contains ''SELECT'' after_paren then Inr ''Subquery''
                else Inr (categorize_tail q query))
             else Inr (categorize_tail q query))
      else Inr (categorize_tail q query))"

subsection \<open>The classifier as the specification words it\<close>

text \<open>
  The specification describes the classifier as an ordered list of rules, each a predicate
  and a label, of which the first that matches wins. The definitions below follow those
  words; they are compared with \<open>categorize_failure\<close> further down. A predicate receives
  the uppercased text and the original text.
\<close>

text \<open>The part of the text strictly after its first opening parenthesis.\<close>

definition after_first_paren :: "string \<Rightarrow> string" where
  "after_first_paren q = tl (dropWhile (\<lambda>c. c \<noteq> CHR ''('') q)"

definition subquery_rule :: "string \<Rightarrow> bool" where
  "subquery_rule q =
     (contains ''SELECT'' q \<and> CHR ''('' \<in> set q \<and> contains ''SELECT'' (after_first_paren q))"

definition except_rule :: "string \<Rightarrow> bool" where
  "except_rule q = contains '' EXCEPT '' q"

definition union_rule :: "string \<Rightarrow> bool" where
  "union_rule q = contains '' UNION '' q"

definition intersect_rule :: "string \<Rightarrow> bool" where
  "intersect_rule q = contains '' INTERSECT '' q"

definition case_when_rule :: "string \<Rightarrow> bool" where
  "case_when_rule q = (contains ''CASE '' q \<or> contains '' WHEN '' q)"

definition concat_rule :: "string \<Rightarrow> bool" where
  "concat_rule q = contains '' || '' q"

definition quotes_rule :: "string \<Rightarrow> bool" where
  "quotes_rule query = (contains [dquote, dquote] query \<or> odd (count_char query dquote))"

text \<open>The rules in the specification's order, with the labels the script returns.\<close>

definition rules :: "((string \<Rightarrow> string \<Rightarrow> bool) \<times> string) list" where
  "rules =
     [(\<lambda>q query. subquery_rule q, ''Subquery''),
      (\<lambda>q query. except_rule q, ''EXCEPT''),
      (\<lambda>q query. union_rule q, ''UNION''),
      (\<lambda>q query. intersect_rule q, ''INTERSECT''),
      (\<lambda>q query. case_when_rule q, ''CASE/WHEN''),
      (\<lambda>q query. concat_rule q, ''String concat (||)''),
      (\<lambda>q query. quotes_rule query, ''Double-quoted strings''),
      (\<lambda>q query. True, ''Other'')]"

text \<open>The label of the first rule that matches, if any does.\<close>

fun first_match :: "((string \<Rightarrow> string \<Rightarrow> bool) \<times> string) list \<Rightarrow> string \<Rightarrow> string \<Rightarrow> string option" where
  "first_match [] q query = None"
| "first_match ((p, l) # rs) q query = (if p q query then Some l else first_match rs q query)"

text \<open>The closed set of categories.\<close>

definition categories :: "string list" where
  "categories = map snd rules"

text \<open>The two example texts of the specification's testable properties.\<close>

definition nested_except_example :: string where
  "nested_except_example =
     ''SELECT * FROM (SELECT name FROM singer EXCEPT SELECT name FROM other)''"

definition empty_quotes_example :: string where
  "empty_quotes_example = ''SELECT * FROM t WHERE name = '' @ [dquote, dquote]"

subsection \<open>The oracle and the output\<close>

text \<open>
  \<open>test_query\<close> starts the external parser on one query and returns whether it exited
  with status zero. The parser is outside the script, so the model takes it as a parameter:
  a function from the state of the outside world and the query to the verdict and the new
  state of the world. Nothing is assumed about it; the same query may pass once and fail the
  next time.
\<close>

type_synonym 'w invoker = "'w \<Rightarrow> string \<Rightarrow> bool \<times> 'w"

text \<open>
  Each \<open>print\<close> statement is one constructor, carrying the values the statement
  interpolates. Percentages are kept as exact rationals: the script divides two integers
  into a float and prints it with one decimal, and that rounding is not modelled.
\<close>

datatype event =
    Message string
  | DataNotFound
  | Progress int int int rat
  | Total int
  | Passed int rat
  | Failed int rat
  | Category string nat rat
  | Sample string

text \<open>\<open>100*a/b\<close>, which raises ZeroDivisionError when \<open>b\<close> is zero.\<close>

definition percent :: "int \<Rightarrow> int \<Rightarrow> error + rat" where
  "percent a b = (if b = 0 then Inl ZeroDivisionError else Inr (of_int (100 * a) / of_int b))"

text \<open>\<open>'='*50\<close>, and the same after a newline.\<close>

definition rule_line :: string where
  "rule_line = replicate 50 (CHR ''='')"

definition banner :: string where
  "banner = CHR 0x0A # rule_line"

subsection \<open>The loop of main\<close>

record args =
  limit :: int
  categorize :: bool
  verbose :: bool

record run_state =
  total :: int
  passed :: int
  failures :: "string list"
  printed :: "event list"

definition initial_state :: run_state where
  "initial_state = \<lparr>total = 0, passed = 0, failures = [], printed = []\<rparr>"

text \<open>\<open>xs[:stop]\<close>: a negative \<open>stop\<close> counts from the end of the list.\<close>

definition slice_to :: "'a list \<Rightarrow> int \<Rightarrow> 'a list" where
  "slice_to xs stop =
     (if stop < 0 then take (nat (int (length xs) + stop)) xs else take (nat stop) xs)"

text \<open>Lines 86 to 95: one iteration, on the state of the run and the state of the world.\<close>

definition loop_body ::
  "'w invoker \<Rightarrow> int \<Rightarrow> string \<Rightarrow> run_state \<times> 'w \<Rightarrow> error + (run_state \<times> 'w)" where
  "loop_body test_query lmt query sw =
     (let (s, w) = sw;
          s1 = s\<lparr>total := total s + 1\<rparr>;
          (ok, w') = test_query w query;
          s2 = (if ok then s1\<lparr>passed := passed s1 + 1\<rparr>
                else s1\<lparr>failures := failures s1 @ [query]\<rparr>)
      in if total s2 mod 100 = 0 then
           (case percent (passed s2) (total s2) of
              Inl e \<Rightarrow> Inl e
            | Inr p \<Rightarrow>
                Inr (s2\<lparr>printed := printed s2 @ [Progress (total s2) lmt (passed s2) p]\<rparr>, w'))
         else Inr (s2, w'))"

text \<open>Line 85: the loop over the queries, stopping at the first exception.\<close>

fun run_loop ::
  "'w invoker \<Rightarrow> int \<Rightarrow> string list \<Rightarrow> run_state \<times> 'w \<Rightarrow> error + (run_state \<times> 'w)" where
  "run_loop test_query lmt [] sw = Inr sw"
| "run_loop test_query lmt (query # rest) sw =
     (case loop_body test_query lmt query sw of
        Inl e \<Rightarrow> Inl e
      | Inr sw' \<Rightarrow> run_loop test_query lmt rest sw')"

subsection \<open>The reports of main\<close>

text \<open>
  Lines 98 to 103. The lines printed before an exception is raised are not kept: a run
  that raises is the exception alone.
\<close>

definition summary :: "run_state \<Rightarrow> error + event list" where
  "summary s =
     (case percent (passed s) (total s) of
        Inl e \<Rightarrow> Inl e
      | Inr pp \<Rightarrow>
          (case percent (int (length (failures s))) (total s) of
             Inl e \<Rightarrow> Inl e
           | Inr fp \<Rightarrow>
               Inr [Message banner, Message ''Spider Corpus Test Results'', Message rule_line,
                    Total (total s), Passed (passed s) pp,
                    Failed (int (length (failures s))) fp]))"

text \<open>
  \<open>collections.Counter\<close>: a dictionary from label to count that keeps the order in which
  the labels were first seen, here an association list.
\<close>

fun counter_add :: "string \<Rightarrow> (string \<times> nat) list \<Rightarrow> (string \<times> nat) list" where
  "counter_add k [] = [(k, 1)]"
| "counter_add k ((k', n) # kvs) =
     (if k = k' then (k', n + 1) # kvs else (k', n) # counter_add k kvs)"

definition Counter :: "string list \<Rightarrow> (string \<times> nat) list" where
  "Counter labels = foldl (\<lambda>m k. counter_add k m) [] labels"

text \<open>
  \<open>most_common()\<close>: the entries by descending count; Python's sort is stable, and so is
  \<open>sort_key\<close>.
\<close>

definition most_common :: "(string \<times> nat) list \<Rightarrow> (string \<times> nat) list" where
  "most_common kvs = sort_key (\<lambda>(k, n). - int n) kvs"

text \<open>Applying a function that can raise to each element in turn.\<close>

fun map_result :: "('a \<Rightarrow> error + 'b) \<Rightarrow> 'a list \<Rightarrow> error + 'b list" where
  "map_result f [] = Inr []"
| "map_result f (x # xs) =
     (case f x of
        Inl e \<Rightarrow> Inl e
      | Inr y \<Rightarrow> (case map_result f xs of Inl e \<Rightarrow> Inl e | Inr ys \<Rightarrow> Inr (y # ys)))"

text \<open>Lines 106 to 111, the body of \<open>if args.categorize and failures\<close>.\<close>

definition category_header :: "event list" where
  "category_header = [Message banner, Message ''Failure Categories'', Message rule_line]"

definition category_line :: "string list \<Rightarrow> string \<times> nat \<Rightarrow> error + event" where
  "category_line fs cc =
     (let (cat, count) = cc in
      case percent (int count) (int (length fs)) of
        Inl e \<Rightarrow> Inl e
      | Inr p \<Rightarrow> Inr (Category cat count p))"

definition category_report :: "(string \<Rightarrow> string) \<Rightarrow> string list \<Rightarrow> error + event list" where
  "category_report upper fs =
     (case map_result (categorize_failure upper) fs of
        Inl e \<Rightarrow> Inl e
      | Inr labels \<Rightarrow>
          (case map_result (category_line fs) (most_common (Counter labels)) of
             Inl e \<Rightarrow> Inl e
           | Inr lines \<Rightarrow> Inr (category_header @ lines)))"

text \<open>
  Lines 114 to 118, the body of \<open>if args.verbose and failures\<close>. \<open>Sample t\<close> is the
  line \<open>"  - "\<close> followed by \<open>t\<close>.
\<close>

definition sample_text :: "string \<Rightarrow> string" where
  "sample_text q = take 100 q @ (if 100 < length q then ''...'' else '''')"

definition sample_header :: "event list" where
  "sample_header = [Message banner, Message ''Sample Failures (first 20)'', Message rule_line]"

definition sample_report :: "string list \<Rightarrow> event list" where
  "sample_report fs = sample_header @ map (\<lambda>q. Sample (sample_text q)) (take 20 fs)"

subsection \<open>main\<close>

text \<open>
  Lines 60 to 120. The inputs are the oracle and the world it runs in, whether the corpus
  file and the parser binary exist, the \<open>query\<close> fields of the corpus in stored order, and
  the parsed command line. The result is the exception raised, or the exit code, the lines
  printed and the final state of the world.
\<close>

definition main ::
  "(string \<Rightarrow> string) \<Rightarrow> 'w invoker \<Rightarrow> 'w \<Rightarrow> bool \<Rightarrow> bool \<Rightarrow> string list \<Rightarrow> args \<Rightarrow> error + (int \<times> event list \<times> 'w)" where
  "main upper test_query w spider_data_exists parser_bin_exists data a =
     (if \<not> spider_data_exists then
        Inr (1, [DataNotFound, Message ''Run: ./scripts/download-spider.sh''], w)
      else if \<not> parser_bin_exists then
        Inr (1, [Message ''Error: Parser not built. Run: lake build sqlinlean''], w)
      else
        (let lmt = min (limit a) (int (length data)) in
         case run_loop test_query lmt (slice_to data lmt) (initial_state, w) of
           Inl e \<Rightarrow> Inl e
         | Inr (s, w') \<Rightarrow>
             (case summary s of
                Inl e \<Rightarrow> Inl e
              | Inr out1 \<Rightarrow>
                  (case (if categorize a \<and> failures s \<noteq> [] then category_report upper (failures s)
                         else Inr []) of
                     Inl e \<Rightarrow> Inl e
                   | Inr out2 \<Rightarrow>
                       (let out3 = (if verbose a \<and> failures s \<noteq> []
                                    then sample_report (failures s) else [])
                        in Inr (0, printed s @ out1 @ out2 @ out3, w'))))))"

subsection \<open>Observations on a run\<close>

text \<open>The texts of the sample lines among the printed lines.\<close>

fun samples_of :: "event list \<Rightarrow> string list" where
  "samples_of [] = []"
| "samples_of (Sample t # es) = t # samples_of es"
| "samples_of (e # es) = samples_of es"


text \<open>
  The percentage printed for one entry of the histogram of the failures \<open>fs\<close>:
  \<open>100*count/len(failures)\<close>, where the failures are not empty.
\<close>

definition share :: "string list \<Rightarrow> string \<times> nat \<Rightarrow> rat" where
  "share fs cc = of_int (100 * int (snd cc)) / of_int (int (length fs))"

text \<open>
  The queries the oracle rejects, in the order it meets them, as the world moves from call
  to call.
\<close>

fun failing_queries :: "'w invoker \<Rightarrow> 'w \<Rightarrow> string list \<Rightarrow> string list" where
  "failing_queries test_query w [] = []"
| "failing_queries test_query w (q # qs) =
     (let (ok, w') = test_query w q
      in (if ok then [] else [q]) @ failing_queries test_query w' qs)"

text \<open>
  A parser for concrete runs: it rejects the queries that contain a parenthesis, and the
  world is the list of the queries it was given, in the order of the calls.
\<close>

definition logging_invoker :: "string list invoker" where
  "logging_invoker w query = (\<not> contains ''('' query, w @ [query])"

definition small_corpus :: "string list" where
  "small_corpus =
     [''SELECT name FROM singer'',
      ''SELECT COUNT(*) FROM singer'',
      ''SELECT name FROM singer WHERE age > (SELECT AVG(age) FROM singer)'']"

section \<open>Properties of the string operations\<close>

lemma contains_iff: "contains sub s \<longleftrightarrow> (\<exists>ps ss. s = ps @ sub @ ss)"
proof (induction s)
  case Nil
  then show ?case by auto
next
  case (Cons c cs)
  show ?case
  proof
    assume "contains sub (c # cs)"
    then consider "prefix sub (c # cs)" | "contains sub cs" by auto
    then show "\<exists>ps ss. c # cs = ps @ sub @ ss"
    proof cases
      case 1
      then obtain ss where "c # cs = sub @ ss" by (auto simp: prefix_def)
      then have "c # cs = [] @ sub @ ss" by simp
      then show ?thesis by blast
    next
      case 2
      with Cons.IH obtain ps ss where "cs = ps @ sub @ ss" by blast
      then have "c # cs = (c # ps) @ sub @ ss" by simp
      then show ?thesis by blast
    qed
  next
    assume "\<exists>ps ss. c # cs = ps @ sub @ ss"
    then obtain ps ss where eq: "c # cs = ps @ sub @ ss" by blast
    show "contains sub (c # cs)"
    proof (cases ps)
      case Nil
      with eq have "prefix sub (c # cs)" by (simp add: prefix_def)
      then show ?thesis by simp
    next
      case (Cons p ps')
      with eq have "cs = ps' @ sub @ ss" by simp
      with Cons.IH have "contains sub cs" by blast
      then show ?thesis by simp
    qed
  qed
qed

lemma contains_single: "contains [c] s \<longleftrightarrow> c \<in> set s"
  by (induction s) auto

lemma contains_Nil_right: "contains sub [] \<longleftrightarrow> sub = []"
  by simp

lemma index_str_single:
  "index_str s [c] = (if c \<in> set s then Some (length (takeWhile (\<lambda>x. x \<noteq> c) s)) else None)"
  by (induction s) auto

lemma drop_after_takeWhile: "drop (Suc (length (takeWhile P s))) s = tl (dropWhile P s)"
  by (induction s) auto

section \<open>Properties of the classifier\<close>

lemma categorize_tail_labels:
  "categorize_tail q query \<in>
     {''EXCEPT'', ''UNION'', ''INTERSECT'', ''CASE/WHEN'', ''String concat (||)'',
      ''Double-quoted strings'', ''Other''}"
  by (simp add: categorize_tail_def)

lemma categorize_tail_not_Subquery: "categorize_tail q query \<noteq> ''Subquery''"
  by (simp add: categorize_tail_def)

text \<open>
  The script's nested subquery test is the specification's subquery predicate, and the
  ValueError branch is never taken.
\<close>

lemma categorize_failure_unfold:
  "categorize_failure upper query =
     Inr (if subquery_rule (upper query) then ''Subquery''
          else categorize_tail (upper query) query)"
proof -
  define q where "q = upper query"
  show ?thesis
  proof (cases "contains ''SELECT'' q \<and> CHR ''('' \<in> set q")
    case False
    then show ?thesis
      by (auto simp: categorize_failure_def subquery_rule_def contains_single q_def [symmetric])
  next
    case True
    define k where "k = length (takeWhile (\<lambda>x. x \<noteq> CHR ''('') q)"
    have idx: "index_str q ''('' = Some k"
      using True by (simp add: index_str_single k_def)
    have after: "drop (k + 1) q = after_first_paren q"
      by (simp add: k_def after_first_paren_def drop_after_takeWhile)
    show ?thesis
    proof (cases "k + 1 < length q")
      case True
      with \<open>contains ''SELECT'' q \<and> CHR ''('' \<in> set q\<close> idx after show ?thesis
        by (simp add: categorize_failure_def subquery_rule_def contains_single
            q_def [symmetric] Let_def)
    next
      case False
      then have "drop (k + 1) q = []" by simp
      with after have "after_first_paren q = []" by simp
      then have "\<not> subquery_rule q" by (simp add: subquery_rule_def)
      with False True idx show ?thesis
        by (simp add: categorize_failure_def contains_single q_def [symmetric] Let_def)
    qed
  qed
qed

text \<open>A label returned by \<open>first_match\<close> belongs to the earliest rule that matches.\<close>

lemma first_match_index:
  "first_match rs q query = Some l \<Longrightarrow>
     \<exists>i<length rs. snd (rs ! i) = l \<and> fst (rs ! i) q query \<and> (\<forall>j<i. \<not> fst (rs ! j) q query)"
proof (induction rs)
  case Nil
  then show ?case by simp
next
  case (Cons r rs)
  obtain p l' where r: "r = (p, l')" by (cases r)
  show ?case
  proof (cases "p q query")
    case True
    with Cons.prems r have "l' = l" by simp
    with True r have "snd ((r # rs) ! 0) = l \<and> fst ((r # rs) ! 0) q query \<and>
        (\<forall>j<0. \<not> fst ((r # rs) ! j) q query)"
      by simp
    then show ?thesis by blast
  next
    case False
    with Cons.prems r have "first_match rs q query = Some l" by simp
    with Cons.IH obtain i where i: "i < length rs" "snd (rs ! i) = l" "fst (rs ! i) q query"
      "\<forall>j<i. \<not> fst (rs ! j) q query" by blast
    have "\<forall>j<Suc i. \<not> fst ((r # rs) ! j) q query"
    proof (intro allI impI)
      fix j assume "j < Suc i"
      then show "\<not> fst ((r # rs) ! j) q query"
        using False r i(4) by (cases j) auto
    qed
    with i have "Suc i < length (r # rs) \<and> snd ((r # rs) ! Suc i) = l \<and>
        fst ((r # rs) ! Suc i) q query \<and> (\<forall>j<Suc i. \<not> fst ((r # rs) ! j) q query)"
      by simp
    then show ?thesis by blast
  qed
qed

text \<open>The script computes what the rule list computes.\<close>

lemma categorize_failure_first_match:
  "\<exists>l. first_match rules (upper query) query = Some l \<and> categorize_failure upper query = Inr l"
  by (simp add: categorize_failure_unfold categorize_tail_def rules_def except_rule_def
      union_rule_def intersect_rule_def case_when_rule_def concat_rule_def quotes_rule_def
      odd_iff_mod_2_eq_one)

lemma nested_except_example_subquery: "subquery_rule (ascii_upper nested_except_example)"
  by code_simp

lemma nested_except_example_except: "except_rule (ascii_upper nested_except_example)"
  by code_simp

lemma nested_except_example_result: "categorize_failure ascii_upper nested_except_example = Inr ''Subquery''"
  by code_simp

lemma distinct_categories: "distinct categories"
  by (simp add: categories_def rules_def)

text \<open>
  Claim C1. The classifier is first-match-wins over the ordered rules: for every query text
  the result is the label of a rule that matches while no rule before it does, so the rules
  after it have no say. The nested EXCEPT example matches the Subquery rule and the EXCEPT
  rule, and is classified Subquery.
\<close>

theorem first_match_wins:
  "(\<exists>i<length rules.
      categorize_failure upper query = Inr (snd (rules ! i)) \<and>
      fst (rules ! i) (upper query) query \<and>
      (\<forall>j<i. \<not> fst (rules ! j) (upper query) query)) \<and>
   subquery_rule (ascii_upper nested_except_example) \<and>
   except_rule (ascii_upper nested_except_example) \<and>
   categorize_failure ascii_upper nested_except_example = Inr ''Subquery''"
proof -
  obtain l where l: "first_match rules (upper query) query = Some l"
    "categorize_failure upper query = Inr l"
    using categorize_failure_first_match by blast
  from first_match_index [OF l(1)] l(2)
  have "\<exists>i<length rules.
      categorize_failure upper query = Inr (snd (rules ! i)) \<and>
      fst (rules ! i) (upper query) query \<and>
      (\<forall>j<i. \<not> fst (rules ! j) (upper query) query)" by auto
  then show ?thesis
    using nested_except_example_subquery nested_except_example_except
      nested_except_example_result by simp
qed

theorem first_match_wins_witness:
  "\<exists>i<length rules.
      categorize_failure ascii_upper ''SELECT a || b FROM t'' = Inr (snd (rules ! i)) \<and>
      fst (rules ! i) (ascii_upper ''SELECT a || b FROM t'') ''SELECT a || b FROM t'' \<and>
      (\<forall>j<i. \<not> fst (rules ! j) (ascii_upper ''SELECT a || b FROM t'') ''SELECT a || b FROM t'')"
  using first_match_wins [of ascii_upper "''SELECT a || b FROM t''"] by blast

text \<open>
  Claim C2. Whatever the uppercasing does, a query text is classified Subquery exactly when
  its uppercased text contains SELECT, contains an opening parenthesis, and contains SELECT
  again in the part strictly after the first opening parenthesis, up to the end of the text.
\<close>

theorem subquery_rule_exact:
  "categorize_failure upper query = Inr ''Subquery'' \<longleftrightarrow>
     contains ''SELECT'' (upper query) \<and> CHR ''('' \<in> set (upper query) \<and>
     contains ''SELECT'' (tl (dropWhile (\<lambda>c. c \<noteq> CHR ''('') (upper query)))"
  by (simp add: categorize_failure_unfold categorize_tail_not_Subquery subquery_rule_def
      after_first_paren_def)

text \<open>
  The text \<open>(a) select 1\<close> has its only SELECT outside the parentheses and after them, and
  is classified Subquery. So is the sharp s example under an uppercasing that turns the
  sharp s into \<open>SS\<close>: its uppercased text reads SELECT after the parenthesis.
\<close>

theorem subquery_rule_exact_witness:
  "categorize_failure ascii_upper ''(a) select 1'' = Inr ''Subquery'' \<and>
   categorize_failure sharp_s_upper sharp_s_example = Inr ''Subquery''"
proof -
  have "contains ''SELECT'' (ascii_upper ''(a) select 1'') \<and>
     CHR ''('' \<in> set (ascii_upper ''(a) select 1'') \<and>
     contains ''SELECT'' (tl (dropWhile (\<lambda>c. c \<noteq> CHR ''('') (ascii_upper ''(a) select 1'')))"
    by code_simp
  with subquery_rule_exact [of ascii_upper "''(a) select 1''"]
  have a: "categorize_failure ascii_upper ''(a) select 1'' = Inr ''Subquery''" by blast
  have "contains ''SELECT'' (sharp_s_upper sharp_s_example) \<and>
     CHR ''('' \<in> set (sharp_s_upper sharp_s_example) \<and>
     contains ''SELECT'' (tl (dropWhile (\<lambda>c. c \<noteq> CHR ''('') (sharp_s_upper sharp_s_example)))"
    by code_simp
  with subquery_rule_exact [of sharp_s_upper sharp_s_example]
  have b: "categorize_failure sharp_s_upper sharp_s_example = Inr ''Subquery''" by blast
  from a b show ?thesis by blast
qed

text \<open>
  Claim C3. For a query text that matches none of the first six rules, the result is
  Double-quoted strings exactly when the original text, not the uppercased one, contains two
  adjacent double quotes or has an odd number of double quotes.
\<close>

theorem quotes_rule_on_original:
  assumes "\<not> subquery_rule (upper query)" and "\<not> except_rule (upper query)"
    and "\<not> union_rule (upper query)" and "\<not> intersect_rule (upper query)"
    and "\<not> case_when_rule (upper query)" and "\<not> concat_rule (upper query)"
  shows "categorize_failure upper query = Inr ''Double-quoted strings'' \<longleftrightarrow>
           contains [dquote, dquote] query \<or> odd (count_char query dquote)"
  using assms
  by (simp add: categorize_failure_unfold categorize_tail_def except_rule_def
      union_rule_def intersect_rule_def case_when_rule_def concat_rule_def
      odd_iff_mod_2_eq_one)

theorem quotes_rule_on_original_witness:
  "categorize_failure ascii_upper empty_quotes_example = Inr ''Double-quoted strings''"
proof -
  have h: "\<not> subquery_rule (ascii_upper empty_quotes_example)"
    "\<not> except_rule (ascii_upper empty_quotes_example)"
    "\<not> union_rule (ascii_upper empty_quotes_example)"
    "\<not> intersect_rule (ascii_upper empty_quotes_example)"
    "\<not> case_when_rule (ascii_upper empty_quotes_example)"
    "\<not> concat_rule (ascii_upper empty_quotes_example)"
    by code_simp+
  have "contains [dquote, dquote] empty_quotes_example" by code_simp
  with quotes_rule_on_original [of ascii_upper empty_quotes_example, OF h] show ?thesis by blast
qed

text \<open>
  Claim C4. The classifier never raises: for every query text, the empty one included, it
  returns exactly one label, that label is one of the eight categories, and it is Other when
  none of the seven rules before it matches. The classifier is a function of the text
  alone, so the same text always gets the same label.
\<close>

theorem categorize_failure_total:
  "(\<exists>!c. c \<in> set categories \<and> categorize_failure upper query = Inr c) \<and>
   (\<not> subquery_rule (upper query) \<and> \<not> except_rule (upper query) \<and>
    \<not> union_rule (upper query) \<and> \<not> intersect_rule (upper query) \<and>
    \<not> case_when_rule (upper query) \<and> \<not> concat_rule (upper query) \<and>
    \<not> quotes_rule query \<longrightarrow> categorize_failure upper query = Inr ''Other'')"
proof -
  have "\<exists>c. c \<in> set categories \<and> categorize_failure upper query = Inr c"
    using categorize_tail_labels [of "upper query" query]
    by (auto simp: categorize_failure_unfold categories_def rules_def)
  then have "\<exists>!c. c \<in> set categories \<and> categorize_failure upper query = Inr c"
    by auto
  moreover have "\<not> subquery_rule (upper query) \<and> \<not> except_rule (upper query) \<and>
    \<not> union_rule (upper query) \<and> \<not> intersect_rule (upper query) \<and>
    \<not> case_when_rule (upper query) \<and> \<not> concat_rule (upper query) \<and>
    \<not> quotes_rule query \<longrightarrow> categorize_failure upper query = Inr ''Other''"
    by (simp add: categorize_failure_unfold categorize_tail_def except_rule_def
      union_rule_def intersect_rule_def case_when_rule_def concat_rule_def quotes_rule_def
      odd_iff_mod_2_eq_one)
  ultimately show ?thesis by blast
qed

theorem categorize_failure_total_witness:
  "categorize_failure ascii_upper '''' = Inr ''Other'' \<and>
   categorize_failure ascii_upper ''SELECT COUNT(*) FROM singer WHERE age > 20'' = Inr ''Other''"
proof -
  have a: "\<not> subquery_rule (ascii_upper '''') \<and> \<not> except_rule (ascii_upper '''') \<and>
    \<not> union_rule (ascii_upper '''') \<and> \<not> intersect_rule (ascii_upper '''') \<and>
    \<not> case_when_rule (ascii_upper '''') \<and> \<not> concat_rule (ascii_upper '''') \<and>
    \<not> quotes_rule ''''" by code_simp
  let ?q = "''SELECT COUNT(*) FROM singer WHERE age > 20''"
  have b: "\<not> subquery_rule (ascii_upper ?q) \<and> \<not> except_rule (ascii_upper ?q) \<and>
    \<not> union_rule (ascii_upper ?q) \<and> \<not> intersect_rule (ascii_upper ?q) \<and>
    \<not> case_when_rule (ascii_upper ?q) \<and> \<not> concat_rule (ascii_upper ?q) \<and>
    \<not> quotes_rule ?q" by code_simp
  from a b categorize_failure_total [of ascii_upper "''''"]
    categorize_failure_total [of ascii_upper ?q]
  show ?thesis by blast
qed

section \<open>Properties of the run\<close>

lemma percent_nonzero: "b \<noteq> 0 \<Longrightarrow> percent a b = Inr (of_int (100 * a) / of_int b)"
  by (simp add: percent_def)

lemma percent_zero: "percent a 0 = Inl ZeroDivisionError"
  by (simp add: percent_def)

lemma samples_of_append: "samples_of (xs @ ys) = samples_of xs @ samples_of ys"
  by (induction xs rule: samples_of.induct) auto

lemma loop_body_ok:
  assumes "0 \<le> total s"
  shows "\<exists>s'. loop_body test_query lmt query (s, w) = Inr (s', snd (test_query w query)) \<and>
           total s' = total s + 1 \<and>
           passed s' + int (length (failures s')) = passed s + int (length (failures s)) + 1 \<and>
           samples_of (printed s') = samples_of (printed s)"
proof -
  obtain ok w' where t: "test_query w query = (ok, w')" by (cases "test_query w query")
  have nz: "total s + 1 \<noteq> 0" using assms by simp
  show ?thesis
    using nz by (cases ok) (simp_all add: loop_body_def t percent_def samples_of_append Let_def)
qed

lemma run_loop_ok:
  "0 \<le> total s \<Longrightarrow>
     \<exists>s'. run_loop test_query lmt qs (s, w) = Inr (s', foldl (\<lambda>w q. snd (test_query w q)) w qs) \<and>
          total s' = total s + int (length qs) \<and>
          passed s' + int (length (failures s')) - total s' =
            passed s + int (length (failures s)) - total s \<and>
          samples_of (printed s') = samples_of (printed s)"
proof (induction qs arbitrary: s w)
  case Nil
  then show ?case by simp
next
  case (Cons q qs)
  from loop_body_ok [OF Cons.prems, of test_query lmt q w]
  obtain s1 where s1: "loop_body test_query lmt q (s, w) = Inr (s1, snd (test_query w q))"
    "total s1 = total s + 1"
    "passed s1 + int (length (failures s1)) = passed s + int (length (failures s)) + 1"
    "samples_of (printed s1) = samples_of (printed s)" by blast
  have "0 \<le> total s1" using s1(2) Cons.prems by simp
  from Cons.IH [OF this, of "snd (test_query w q)"]
  obtain s' where s': "run_loop test_query lmt qs (s1, snd (test_query w q)) =
      Inr (s', foldl (\<lambda>w q. snd (test_query w q)) (snd (test_query w q)) qs)"
    "total s' = total s1 + int (length qs)"
    "passed s' + int (length (failures s')) - total s' =
       passed s1 + int (length (failures s1)) - total s1"
    "samples_of (printed s') = samples_of (printed s1)" by blast
  have "run_loop test_query lmt (q # qs) (s, w) =
      Inr (s', foldl (\<lambda>w q. snd (test_query w q)) w (q # qs))"
    using s1(1) s'(1) by simp
  moreover have "total s' = total s + int (length (q # qs))" using s1(2) s'(2) by simp
  moreover have "passed s' + int (length (failures s')) - total s' =
            passed s + int (length (failures s)) - total s" using s1(2,3) s'(3) by simp
  moreover have "samples_of (printed s') = samples_of (printed s)" using s1(4) s'(4) by simp
  ultimately show ?case by blast
qed

lemma run_loop_append:
  "run_loop test_query lmt (xs @ ys) sw =
     (case run_loop test_query lmt xs sw of
        Inl e \<Rightarrow> Inl e
      | Inr sw' \<Rightarrow> run_loop test_query lmt ys sw')"
  by (induction xs arbitrary: sw) (auto split: sum.splits)

lemma loop_body_failures:
  "loop_body test_query lmt query (s, w) = Inr (s', w') \<Longrightarrow>
     failures s' = failures s @ failing_queries test_query w [query]"
  by (cases "test_query w query")
    (auto simp: loop_body_def Let_def split: if_splits sum.splits)

lemma loop_body_world:
  "loop_body test_query lmt query (s, w) = Inr (s', w') \<Longrightarrow> w' = snd (test_query w query)"
  by (cases "test_query w query")
    (auto simp: loop_body_def Let_def split: if_splits sum.splits)

lemma run_loop_failures:
  "run_loop test_query lmt qs (s, w) = Inr (s', w') \<Longrightarrow>
     failures s' = failures s @ failing_queries test_query w qs"
proof (induction qs arbitrary: s w)
  case Nil
  then show ?case by simp
next
  case (Cons q qs)
  from Cons.prems obtain s1 w1 where b: "loop_body test_query lmt q (s, w) = Inr (s1, w1)"
    and r: "run_loop test_query lmt qs (s1, w1) = Inr (s', w')"
    by (auto split: sum.splits)
  from loop_body_failures [OF b] have f1: "failures s1 = failures s @ failing_queries test_query w [q]" .
  from loop_body_world [OF b] have w1: "w1 = snd (test_query w q)" .
  from Cons.IH [OF r] have "failures s' = failures s1 @ failing_queries test_query w1 qs" .
  with f1 w1 show ?case by (cases "test_query w q") simp
qed

lemma length_failing_queries: "length (failing_queries test_query w qs) \<le> length qs"
proof (induction qs arbitrary: w)
  case Nil
  then show ?case by simp
next
  case (Cons q qs)
  obtain ok w' where t: "test_query w q = (ok, w')" by (cases "test_query w q")
  from Cons [of w'] show ?case by (simp add: t)
qed

lemma summary_zero: "total s = 0 \<Longrightarrow> summary s = Inl ZeroDivisionError"
  by (simp add: summary_def percent_def)

lemma summary_ok: "total s \<noteq> 0 \<Longrightarrow> \<exists>out. summary s = Inr out \<and> samples_of out = []"
  by (simp add: summary_def percent_def)

lemma main_no_queries:
  assumes "slice_to data (min (limit a) (int (length data))) = []"
  shows "main upper test_query w True True data a = Inl ZeroDivisionError"
  by (simp add: main_def Let_def assms initial_state_def summary_zero)


subsection \<open>The histogram\<close>







lemma map_result_total: "(\<And>x. f x = Inr (g x)) \<Longrightarrow> map_result f xs = Inr (map g xs)"
  by (induction xs) auto


lemma category_line_ok:
  "fs \<noteq> [] \<Longrightarrow> category_line fs cc = Inr (Category (fst cc) (snd cc) (share fs cc))"
  by (cases cc) (simp add: category_line_def percent_def share_def)



lemma samples_of_lines:
  "samples_of (map (\<lambda>cc. Category (fst cc) (snd cc) (share fs cc)) kvs) = []"
  by (induction kvs) auto


lemma category_report_ok:
  assumes "fs \<noteq> []"
  shows "\<exists>labels. map_result (categorize_failure upper) fs = Inr labels \<and>
           category_report upper fs =
             Inr (category_header @
                  map (\<lambda>cc. Category (fst cc) (snd cc) (share fs cc)) (most_common (Counter labels)))"
proof -
  have "map_result (categorize_failure upper) fs =
      Inr (map (\<lambda>query. if subquery_rule (upper query) then ''Subquery''
          else categorize_tail (upper query) query) fs)"
    by (rule map_result_total) (rule categorize_failure_unfold)
  moreover have "map_result (category_line fs) kvs =
      Inr (map (\<lambda>cc. Category (fst cc) (snd cc) (share fs cc)) kvs)" for kvs
    by (rule map_result_total) (rule category_line_ok [OF assms])
  ultimately show ?thesis by (simp add: category_report_def)
qed

subsection \<open>The whole run\<close>

lemma category_report_no_samples:
  "fs \<noteq> [] \<Longrightarrow> \<exists>out. category_report upper fs = Inr out \<and> samples_of out = []"
  using category_report_ok [of fs upper]
  by (auto simp: samples_of_append samples_of_lines category_header_def)

lemma samples_of_sample_report:
  "samples_of (sample_report fs) = map sample_text (take 20 fs)"
proof -
  have "samples_of (map (\<lambda>q. Sample (sample_text q)) qs) = map sample_text qs" for qs
    by (induction qs) auto
  then show ?thesis by (simp add: sample_report_def sample_header_def samples_of_append)
qed

lemma length_sample_text: "length (sample_text q) \<le> 103"
  by (simp add: sample_text_def)

lemma main_result:
  assumes "slice_to data (min (limit a) (int (length data))) \<noteq> []"
  shows "\<exists>out. main upper test_query w True True data a =
           Inr (0, out, foldl (\<lambda>w q. snd (test_query w q)) w
                          (slice_to data (min (limit a) (int (length data))))) \<and>
         samples_of out =
           (if verbose a
            then map sample_text
                   (take 20 (failing_queries test_query w
                               (slice_to data (min (limit a) (int (length data))))))
            else [])"
proof -
  define lmt where "lmt = min (limit a) (int (length data))"
  define qs where "qs = slice_to data lmt"
  have ne: "qs \<noteq> []" using assms by (simp add: qs_def lmt_def)
  have "0 \<le> total initial_state" by (simp add: initial_state_def)
  from run_loop_ok [OF this, of test_query lmt qs w]
  obtain s where s: "run_loop test_query lmt qs (initial_state, w) =
      Inr (s, foldl (\<lambda>w q. snd (test_query w q)) w qs)"
    "total s = total initial_state + int (length qs)"
    "samples_of (printed s) = samples_of (printed initial_state)"
    by blast
  have fs: "failures s = failing_queries test_query w qs"
    using run_loop_failures [OF s(1)] by (simp add: initial_state_def)
  have "total s \<noteq> 0" using s(2) ne by (simp add: initial_state_def)
  from summary_ok [OF this] obtain out1 where o1: "summary s = Inr out1" "samples_of out1 = []"
    by blast
  obtain out2 where o2:
    "(if categorize a \<and> failures s \<noteq> [] then category_report upper (failures s) else Inr []) = Inr out2"
    "samples_of out2 = []"
  proof (cases "categorize a \<and> failures s \<noteq> []")
    case True
    then have "failures s \<noteq> []" by simp
    from category_report_no_samples [OF this, of upper] True that show ?thesis by auto
  next
    case False
    with that [of "[]"] show ?thesis by auto
  qed
  define out3 where "out3 = (if verbose a \<and> failures s \<noteq> [] then sample_report (failures s) else [])"
  have o3: "samples_of out3 = (if verbose a then map sample_text (take 20 (failures s)) else [])"
    by (simp add: out3_def samples_of_sample_report)
  have "main upper test_query w True True data a =
      Inr (0, printed s @ out1 @ out2 @ out3, foldl (\<lambda>w q. snd (test_query w q)) w qs)"
    using s(1) o1(1) o2(1)
    by (simp add: main_def Let_def lmt_def [symmetric] qs_def [symmetric] out3_def)
  moreover have "samples_of (printed s @ out1 @ out2 @ out3) =
      (if verbose a then map sample_text (take 20 (failing_queries test_query w qs)) else [])"
    using s(3) o1(2) o2(2) o3 fs by (simp add: samples_of_append initial_state_def)
  ultimately show ?thesis unfolding qs_def lmt_def by blast
qed

lemma run_loop_from_start:
  "\<exists>s. run_loop test_query lmt qs (initial_state, w) =
          Inr (s, foldl (\<lambda>w q. snd (test_query w q)) w qs) \<and>
        total s = int (length qs)"
proof -
  have "0 \<le> total initial_state" by (simp add: initial_state_def)
  from run_loop_ok [OF this, of test_query lmt qs w] show ?thesis
    by (auto simp: initial_state_def)
qed

lemma limit_clipping:
  assumes "int (length data) < limit a"
  shows "slice_to data (min (limit a) (int (length data))) = data \<and>
         (\<exists>s. run_loop test_query (min (limit a) (int (length data)))
                 (slice_to data (min (limit a) (int (length data)))) (initial_state, w) =
               Inr (s, foldl (\<lambda>w q. snd (test_query w q)) w data) \<and>
              total s = int (length data)) \<and>
         (data \<noteq> [] \<longrightarrow>
            (\<exists>out. main upper test_query w True True data a =
                     Inr (0, out, foldl (\<lambda>w q. snd (test_query w q)) w data)))"
proof -
  have sl: "slice_to data (min (limit a) (int (length data))) = data"
    using assms by (simp add: slice_to_def min_def)
  have "\<exists>s. run_loop test_query (min (limit a) (int (length data))) data (initial_state, w) =
               Inr (s, foldl (\<lambda>w q. snd (test_query w q)) w data) \<and>
              total s = int (length data)"
    by (rule run_loop_from_start)
  moreover have "\<exists>out. main upper test_query w True True data a =
                     Inr (0, out, foldl (\<lambda>w q. snd (test_query w q)) w data)"
    if "data \<noteq> []"
  proof -
    from that sl have "slice_to data (min (limit a) (int (length data))) \<noteq> []" by simp
    from main_result [OF this, of upper test_query w] sl show ?thesis by auto
  qed
  ultimately show ?thesis using sl by simp
qed

section \<open>The claims about the run\<close>

text \<open>
  Claim C5. After each iteration of the loop, on any list of queries and with any oracle,
  the number of passed queries plus the number of retained failing queries equals the
  number of queries tested. The state after \<open>k\<close> iterations is the state of the loop run on
  the first \<open>k\<close> queries, from which the rest of the run continues; the loop raises
  nothing on the way, and at \<open>k = length qs\<close> this is the state the run ends with.
\<close>

theorem counts_invariant:
  "\<forall>k\<le>length qs.
     \<exists>s w'. run_loop test_query lmt (take k qs) (initial_state, w) = Inr (s, w') \<and>
            run_loop test_query lmt qs (initial_state, w) = run_loop test_query lmt (drop k qs) (s, w') \<and>
            total s = int k \<and>
            passed s + int (length (failures s)) = total s"
proof (intro allI impI)
  fix k assume k: "k \<le> length qs"
  have "0 \<le> total initial_state" by (simp add: initial_state_def)
  from run_loop_ok [OF this, of test_query lmt "take k qs" w]
  obtain s where s: "run_loop test_query lmt (take k qs) (initial_state, w) =
      Inr (s, foldl (\<lambda>w q. snd (test_query w q)) w (take k qs))"
    "total s = total initial_state + int (length (take k qs))"
    "passed s + int (length (failures s)) - total s =
       passed initial_state + int (length (failures initial_state)) - total initial_state"
    by blast
  have "run_loop test_query lmt (take k qs @ drop k qs) (initial_state, w) =
      run_loop test_query lmt (drop k qs) (s, foldl (\<lambda>w q. snd (test_query w q)) w (take k qs))"
    by (simp only: run_loop_append s(1) sum.case)
  then have "run_loop test_query lmt qs (initial_state, w) =
      run_loop test_query lmt (drop k qs) (s, foldl (\<lambda>w q. snd (test_query w q)) w (take k qs))"
    by simp
  moreover have "total s = int k" using s(2) k by (simp add: initial_state_def)
  moreover have "passed s + int (length (failures s)) = total s"
    using s(3) by (simp add: initial_state_def)
  ultimately show "\<exists>s w'. run_loop test_query lmt (take k qs) (initial_state, w) = Inr (s, w') \<and>
            run_loop test_query lmt qs (initial_state, w) = run_loop test_query lmt (drop k qs) (s, w') \<and>
            total s = int k \<and>
            passed s + int (length (failures s)) = total s"
    using s(1) by blast
qed


theorem counts_invariant_witness:
  "\<exists>s w'. run_loop logging_invoker 3 (take 2 small_corpus) (initial_state, []) = Inr (s, w') \<and>
          run_loop logging_invoker 3 small_corpus (initial_state, []) =
            run_loop logging_invoker 3 (drop 2 small_corpus) (s, w') \<and>
          total s = 2 \<and>
          passed s + int (length (failures s)) = total s"
proof -
  have "(2::nat) \<le> length small_corpus" by (simp add: small_corpus_def)
  with counts_invariant [of small_corpus logging_invoker 3 "[]"] show ?thesis by fastforce
qed

text \<open>
  Claim C6. The claim asks for a guard on a run that tested no query. The script has none:
  with an empty corpus, or with a limit of zero, line 102 divides by a total of zero.
\<close>

theorem empty_run_divides_by_zero:
  "main ascii_upper logging_invoker [] True True []
     \<lparr>limit = 500, categorize = False, verbose = False\<rparr> = Inl ZeroDivisionError \<and>
   main ascii_upper logging_invoker [] True True small_corpus
     \<lparr>limit = 0, categorize = False, verbose = False\<rparr> = Inl ZeroDivisionError"
  by code_simp



text \<open>
  Claim C9. Whenever the run ends without raising, it has printed at most 20 sample lines,
  the text of each is at most 103 characters long, and with the verbose flag the texts are
  those of the first 20 rejected queries in the order met, each cut to its first 100
  characters with \<open>...\<close> appended when it is longer than that and unchanged otherwise.
\<close>

theorem verbose_listing_bounded:
  assumes "main upper test_query w spider_data_exists parser_bin_exists data a = Inr (code, out, w')"
  shows "length (samples_of out) \<le> 20 \<and>
         (\<forall>t\<in>set (samples_of out). length t \<le> 103) \<and>
         (spider_data_exists \<and> parser_bin_exists \<and> verbose a \<longrightarrow>
            samples_of out =
              map sample_text
                (take 20 (failing_queries test_query w
                            (slice_to data (min (limit a) (int (length data))))))) \<and>
         (\<forall>q. sample_text q = (if 100 < length q then take 100 q @ ''...'' else q))"
proof -
  let ?qs = "slice_to data (min (limit a) (int (length data)))"
  have trunc: "\<forall>q. sample_text q = (if 100 < length q then take 100 q @ ''...'' else q)"
    by (simp add: sample_text_def)
  show ?thesis
  proof (cases "spider_data_exists \<and> parser_bin_exists")
    case False
    with assms have "samples_of out = []"
      by (auto simp: main_def split: if_splits)
    with False trunc show ?thesis by auto
  next
    case True
    then have t: "spider_data_exists = True" "parser_bin_exists = True" by simp_all
    have ne: "?qs \<noteq> []"
    proof
      assume "?qs = []"
      from main_no_queries [OF this, of upper test_query w] assms t show False by simp
    qed
    from main_result [OF ne, of upper test_query w] assms t
    have so: "samples_of out =
        (if verbose a then map sample_text (take 20 (failing_queries test_query w ?qs)) else [])"
      by auto
    then have "length (samples_of out) \<le> 20" by simp
    moreover have "\<forall>t\<in>set (samples_of out). length t \<le> 103"
      using so length_sample_text by (auto split: if_splits)
    ultimately show ?thesis using so trunc by simp
  qed
qed

theorem verbose_listing_bounded_witness:
  "\<exists>code out w'.
     main ascii_upper logging_invoker [] True True small_corpus
       \<lparr>limit = 500, categorize = False, verbose = True\<rparr> = Inr (code, out, w') \<and>
     samples_of out = map sample_text (drop 1 small_corpus) \<and>
     length (samples_of out) \<le> 20 \<and> (\<forall>t\<in>set (samples_of out). length t \<le> 103)"
proof -
  let ?a = "\<lparr>limit = 500, categorize = False, verbose = True\<rparr>"
  let ?qs = "slice_to small_corpus (min (limit ?a) (int (length small_corpus)))"
  have ne: "?qs \<noteq> []"
    by (simp add: slice_to_def small_corpus_def)
  from main_result [OF ne, of ascii_upper logging_invoker "[]"]
  obtain out where m: "main ascii_upper logging_invoker [] True True small_corpus ?a =
      Inr (0, out, foldl (\<lambda>w q. snd (logging_invoker w q)) [] ?qs)" by blast
  have fq: "failing_queries logging_invoker [] ?qs = drop 1 small_corpus"
    by code_simp
  note v = verbose_listing_bounded [OF m]
  have prem: "True \<and> True \<and> verbose ?a" by simp
  from v prem have "samples_of out = map sample_text (take 20 (failing_queries logging_invoker [] ?qs))"
    by blast
  then have "samples_of out = map sample_text (take 20 (drop 1 small_corpus))"
    by (simp only: fq)
  then have so: "samples_of out = map sample_text (drop 1 small_corpus)"
    by (simp add: small_corpus_def)
  from v have "length (samples_of out) \<le> 20" "\<forall>t\<in>set (samples_of out). length t \<le> 103"
    by blast+
  with m so show ?thesis by blast
qed



text \<open>
  Claim C8. A limit above the corpus size is clipped to it, and the loop then tests each
  query of the corpus once and in order; on a corpus that is not empty the run ends with
  exit code 0 (\<open>limit_clipping\<close>). The claim covers the empty corpus as well, where every
  positive limit is above the corpus size: there the run raises at line 102.
\<close>

theorem limit_above_empty_corpus_raises:
  "main ascii_upper logging_invoker [] True True []
     \<lparr>limit = 1, categorize = False, verbose = False\<rparr> = Inl ZeroDivisionError"
  by code_simp

end
